theory Spec2Isabelle
  imports Complex_Main
begin

section \<open>The Batch Planner of \<open>batch_detection\<close>\<close>

text \<open>
  The planning loop of \<open>batch_detection\<close> (lines 45 to 58 of \<open>surya/detection.py\<close>):
  \<^verbatim>\<open>
    batches = []
    current_batch_size = 0
    current_batch = []
    for i in range(len(images)):
        if current_batch_size + splits_per_image[i] > batch_size:
            if len(current_batch) > 0:
                batches.append(current_batch)
            current_batch = []
            current_batch_size = 0
        current_batch.append(i)
        current_batch_size += splits_per_image[i]

    if len(current_batch) > 0:
        batches.append(current_batch)
  \<close>
  The three mutable variables are the fields of the loop state. Tile counts and the
  budget are Python integers, hence \<open>int\<close>; image indices are positions in the input
  list, hence \<open>nat\<close>. The list \<open>splits_per_image\<close> has one entry per image, so the
  read \<open>splits_per_image[i]\<close> is always in range.
\<close>

record planner_state =
  batches :: "nat list list"
  current_batch :: "nat list"
  current_batch_size :: int

definition planner_init :: planner_state where
  "planner_init = \<lparr>batches = [], current_batch = [], current_batch_size = 0\<rparr>"

definition close_batch :: "planner_state \<Rightarrow> planner_state" where
  "close_batch s =
     \<lparr>batches = (if length (current_batch s) > 0 then batches s @ [current_batch s]
                  else batches s),
      current_batch = [],
      current_batch_size = 0\<rparr>"

definition plan_step :: "int list \<Rightarrow> int \<Rightarrow> planner_state \<Rightarrow> nat \<Rightarrow> planner_state" where
  "plan_step splits_per_image batch_size s i =
     (let s1 = (if current_batch_size s + splits_per_image ! i > batch_size
                then close_batch s else s)
      in s1\<lparr>current_batch := current_batch s1 @ [i],
             current_batch_size := current_batch_size s1 + splits_per_image ! i\<rparr>)"

definition plan_loop :: "int list \<Rightarrow> int \<Rightarrow> nat \<Rightarrow> planner_state" where
  "plan_loop splits_per_image batch_size n =
     foldl (plan_step splits_per_image batch_size) planner_init [0..<n]"

definition plan_batches :: "int list \<Rightarrow> int \<Rightarrow> nat list list" where
  "plan_batches splits_per_image batch_size =
     (let s = plan_loop splits_per_image batch_size (length splits_per_image)
      in if length (current_batch s) > 0 then batches s @ [current_batch s]
         else batches s)"

text \<open>The total tile count of a batch, and the soft cap a batch has to respect.\<close>

definition batch_tiles :: "int list \<Rightarrow> nat list \<Rightarrow> int" where
  "batch_tiles splits_per_image b = sum_list (map (\<lambda>j. splits_per_image ! j) b)"

definition within_budget :: "int list \<Rightarrow> int \<Rightarrow> nat list \<Rightarrow> bool" where
  "within_budget splits_per_image batch_size b \<longleftrightarrow>
     batch_tiles splits_per_image b \<le> batch_size \<or>
     (length b = 1 \<and> splits_per_image ! (hd b) > batch_size)"



section \<open>The Tiler\<close>

text \<open>
  Modelled from the spec: \<open>get_total_splits\<close> and \<open>split_image\<close> are imported from
  \<open>surya.input.processing\<close>, which is not among the sources. Section 3 of the spec
  gives a tile its source image index, its valid height (at most the window height, the
  rest being padding) and its order within the image.
\<close>

record tile =
  sourceImageIndex :: nat
  validHeight :: nat
  orderWithinImage :: nat

text \<open>
  Modelled from the spec: \<open>countTiles\<close> (\<open>get_total_splits\<close> in the code) is "a pure
  function of image height and window height, used by the Batch Planner without
  materializing tiles". It is written here with the integer division an implementation
  uses; that it is the ceiling of \<open>H / W\<close> is part of claim C5.
\<close>

definition countTiles :: "nat \<Rightarrow> nat \<Rightarrow> nat" where
  "countTiles H W = (H + W - 1) div W"

text \<open>
  Modelled from the spec: the Tiler (\<open>split_image\<close> in the code) produces "an ordered
  sequence of Tiles covering the image top-to-bottom with no horizontal splitting, the
  last tile zero-padded to the window height if the remainder is shorter". The function
  walks down the image: \<open>k\<close> is the order of the next tile and \<open>remaining\<close> the number
  of rows not yet covered; every tile takes a full window of rows but the last, which
  takes what is left. A window of height zero covers nothing.
\<close>

function tiler_from :: "nat \<Rightarrow> nat \<Rightarrow> nat \<Rightarrow> nat \<Rightarrow> tile list" where
  "tiler_from idx W k remaining =
     (if remaining = 0 \<or> W = 0 then []
      else \<lparr>sourceImageIndex = idx, validHeight = min W remaining, orderWithinImage = k\<rparr>
             # tiler_from idx W (Suc k) (remaining - W))"
  by pat_completeness auto
termination
  by (relation "measure (\<lambda>(idx, W, k, remaining). remaining)") auto

declare tiler_from.simps [simp del]

definition tiler :: "nat \<Rightarrow> nat \<Rightarrow> nat \<Rightarrow> tile list" where
  "tiler idx H W = tiler_from idx W 0 H"

definition tileHeights :: "nat \<Rightarrow> nat \<Rightarrow> nat list" where
  "tileHeights H W = map validHeight (tiler 0 H W)"

section \<open>Arrays, logits and the Tile Reassembler\<close>

text \<open>
  The exceptions the code of \<open>surya/detection.py\<close> can raise by itself: the
  \<^verbatim>\<open>assert\<close> of \<open>batch_detection\<close>, an index out of range, \<open>torch.stack\<close> on an empty
  list, and the \<open>ValueError\<close> of \<open>np.vstack\<close> on arrays of different widths, of a failed
  tuple unpacking and of a process pool without workers.
\<close>

datatype error = AssertionError | IndexError | RuntimeError | ValueError

text \<open>
  The results of a list comprehension whose body can raise: the first exception, in
  list order, ends the comprehension.
\<close>

fun collect :: "(error + 'a) list \<Rightarrow> error + 'a list" where
  "collect [] = Inr []"
| "collect (Inl e # rs) = Inl e"
| "collect (Inr x # rs) = (case collect rs of Inl e \<Rightarrow> Inl e | Inr xs \<Rightarrow> Inr (x # xs))"

text \<open>
  A two-dimensional \<open>ndarray\<close>: its rows, top to bottom, and its number of columns
  (which an array without rows still has). Its \<open>shape\<close> is \<open>(rows, columns)\<close>.
  \<open>a[:height, :]\<close> keeps the first \<open>height\<close> rows, and \<open>np.vstack([a, b])\<close> puts \<open>b\<close>
  below \<open>a\<close>; it raises \<open>ValueError\<close> when the widths differ.
\<close>

record 'a array2d =
  ncols :: nat
  rows :: "'a list list"

definition shape :: "'a array2d \<Rightarrow> nat list" where
  "shape a = [length (rows a), ncols a]"

definition take_rows :: "nat \<Rightarrow> 'a array2d \<Rightarrow> 'a array2d" where
  "take_rows height a = a\<lparr>rows := take height (rows a)\<rparr>"

definition vstack :: "'a array2d \<Rightarrow> 'a array2d \<Rightarrow> error + 'a array2d" where
  "vstack a b =
     (if ncols a = ncols b then Inr \<lparr>ncols = ncols a, rows = rows a @ rows b\<rparr>
      else Inl ValueError)"

text \<open>
  The logits: a four-dimensional array \<open>[tiles, channels, height, width]\<close>.
  \<open>t_height\<close> and \<open>t_width\<close> are \<open>logits.shape[2:]\<close>, and \<open>t_data ! i ! k\<close> are the
  rows of tile \<open>i\<close>, channel \<open>k\<close>. The conversions \<open>.cpu().detach().numpy()\<close> and
  \<open>.astype(np.float32)\<close> keep shape and positions and are not modelled. An array is
  rectangular: \<open>wf_tensor\<close> says that the data has the declared height and width.
\<close>

record 'a tensor =
  t_height :: nat
  t_width :: nat
  t_data :: "'a list list list list"

definition wf_tensor :: "'a tensor \<Rightarrow> bool" where
  "wf_tensor t \<longleftrightarrow>
     list_all (list_all (\<lambda>ch. length ch = t_height t \<and>
                               list_all (\<lambda>row. length row = t_width t) ch)) (t_data t)"

text \<open>\<open>logits[i][k]\<close>, with the \<open>IndexError\<close> of an index out of range.\<close>

definition tensor_at :: "'a tensor \<Rightarrow> nat \<Rightarrow> nat \<Rightarrow> error + 'a array2d" where
  "tensor_at logits i k =
     (if i < length (t_data logits) \<and> k < length (t_data logits ! i)
      then Inr \<lparr>ncols = t_width logits, rows = t_data logits ! i ! k\<rparr>
      else Inl IndexError)"

text \<open>\<open>[logits[i][k] for k in range(heatmap_count)]\<close>\<close>

definition tile_heatmaps :: "'a tensor \<Rightarrow> nat \<Rightarrow> nat \<Rightarrow> error + 'a array2d list" where
  "tile_heatmaps logits i heatmap_count =
     collect (map (tensor_at logits i) [0..<heatmap_count])"

text \<open>
  The reassembly loop of \<open>batch_detection\<close> (lines 87 to 103):
  \<^verbatim>\<open>
    preds = []
    for i, (idx, height) in enumerate(zip(split_index, split_heights)):
        if len(preds) <= idx:
            preds.append([logits[i][k] for k in range(heatmap_count)])
        else:
            heatmaps = preds[idx]
            pred_heatmaps = [logits[i][k] for k in range(heatmap_count)]
            if height < processor.size["height"]:
                pred_heatmaps = [pred_heatmap[:height, :] for pred_heatmap in pred_heatmaps]
            for k in range(heatmap_count):
                heatmaps[k] = np.vstack([heatmaps[k], pred_heatmaps[k]])
            preds[idx] = heatmaps
  \<close>
  \<open>preds\<close> is the loop state. The first tile of an image is appended as it is; a later
  tile is cut to \<open>height\<close> rows when \<open>height\<close> is below the processor height, and put
  below what the image has so far. Every entry of \<open>preds\<close> was built with
  \<open>heatmap_count\<close> heatmaps, so \<open>heatmaps[k]\<close> is in range in the last loop, and
  \<open>preds[idx]\<close> is in range in the \<^verbatim>\<open>else\<close> branch. Heights are row counts, hence \<open>nat\<close>.
\<close>

definition vstack_all ::
  "nat \<Rightarrow> 'a array2d list \<Rightarrow> 'a array2d list \<Rightarrow> error + 'a array2d list" where
  "vstack_all heatmap_count heatmaps pred_heatmaps =
     collect (map (\<lambda>k. vstack (heatmaps ! k) (pred_heatmaps ! k)) [0..<heatmap_count])"

definition reassemble_step ::
  "nat \<Rightarrow> nat \<Rightarrow> 'a tensor \<Rightarrow> 'a array2d list list \<Rightarrow> nat \<times> nat \<times> nat
   \<Rightarrow> error + 'a array2d list list" where
  "reassemble_step processor_height heatmap_count logits preds x =
     (case x of (i, idx, height) \<Rightarrow>
        if length preds \<le> idx then
          (case tile_heatmaps logits i heatmap_count of
             Inl e \<Rightarrow> Inl e
           | Inr pred_heatmaps \<Rightarrow> Inr (preds @ [pred_heatmaps]))
        else
          (case tile_heatmaps logits i heatmap_count of
             Inl e \<Rightarrow> Inl e
           | Inr pred_heatmaps \<Rightarrow>
               (let heatmaps = preds ! idx;
                    pred_heatmaps1 =
                      (if height < processor_height
                       then map (take_rows height) pred_heatmaps else pred_heatmaps)
                in case vstack_all heatmap_count heatmaps pred_heatmaps1 of
                     Inl e \<Rightarrow> Inl e
                   | Inr stacked \<Rightarrow> Inr (preds[idx := stacked]))))"

fun reassemble_loop ::
  "nat \<Rightarrow> nat \<Rightarrow> 'a tensor \<Rightarrow> 'a array2d list list \<Rightarrow> (nat \<times> nat \<times> nat) list
   \<Rightarrow> error + 'a array2d list list" where
  "reassemble_loop ph hc logits preds [] = Inr preds"
| "reassemble_loop ph hc logits preds (x # xs) =
     (case reassemble_step ph hc logits preds x of
        Inl e \<Rightarrow> Inl e
      | Inr preds1 \<Rightarrow> reassemble_loop ph hc logits preds1 xs)"

definition reassemble ::
  "nat \<Rightarrow> nat \<Rightarrow> 'a tensor \<Rightarrow> nat list \<Rightarrow> nat list \<Rightarrow> error + 'a array2d list list" where
  "reassemble processor_height heatmap_count logits split_index split_heights =
     reassemble_loop processor_height heatmap_count logits []
       (enumerate 0 (zip split_index split_heights))"

text \<open>
  The list \<open>split_index\<close> that the tiling loop of \<open>batch_detection\<close> (lines 64 to 71)
  builds: \<open>split_index.extend([image_idx] * len(image_parts))\<close> for every image of the
  batch, \<open>image_idx\<close> counting from \<open>p\<close> (\<open>enumerate\<close> starts at zero).
\<close>

definition split_index_of :: "nat \<Rightarrow> 'b list list \<Rightarrow> nat list" where
  "split_index_of p parts =
     concat (map (\<lambda>(image_idx, image_parts). replicate (length image_parts) image_idx)
               (enumerate p parts))"

text \<open>
  What reassembly is to produce, stated without the loop. The tiles of a batch are
  numbered in the order they are stacked; \<open>groups off hss\<close> pairs every tile number with
  its valid height, one group per image, where \<open>hss\<close> lists the valid heights of each
  image's tiles and \<open>off\<close> is the number of the first tile. \<open>trimmed\<close> cuts a tile's rows as the \<^verbatim>\<open>else\<close> branch of the loop does, and
  \<open>assembled\<close> is the heatmap list of one image: the first tile as it is, every later
  tile trimmed, top to bottom.
\<close>

fun groups :: "nat \<Rightarrow> nat list list \<Rightarrow> (nat \<times> nat) list list" where
  "groups off [] = []"
| "groups off (hs # hss) = zip [off..<off + length hs] hs # groups (off + length hs) hss"

definition trimmed :: "nat \<Rightarrow> nat \<Rightarrow> 'a list \<Rightarrow> 'a list" where
  "trimmed processor_height height rs = (if height < processor_height then take height rs else rs)"

definition assembled_rows :: "nat \<Rightarrow> 'a tensor \<Rightarrow> (nat \<times> nat) list \<Rightarrow> nat \<Rightarrow> 'a list list" where
  "assembled_rows processor_height logits g k =
     (case g of
        [] \<Rightarrow> []
      | (i0, h0) # later \<Rightarrow>
          t_data logits ! i0 ! k
            @ concat (map (\<lambda>(i, h). trimmed processor_height h (t_data logits ! i ! k)) later))"

definition assembled :: "nat \<Rightarrow> nat \<Rightarrow> 'a tensor \<Rightarrow> (nat \<times> nat) list \<Rightarrow> 'a array2d list" where
  "assembled processor_height heatmap_count logits g =
     map (\<lambda>k. \<lparr>ncols = t_width logits, rows = assembled_rows processor_height logits g k\<rparr>)
       [0..<heatmap_count]"

text \<open>
  Two notions for the proofs: the heatmap list of \<open>heatmap_count\<close> arrays of width \<open>w\<close>
  whose rows are given by channel, and the tiles for which \<open>logits[i][k]\<close> is in range
  for every channel the loop reads.
\<close>

definition entry :: "nat \<Rightarrow> nat \<Rightarrow> (nat \<Rightarrow> 'a list list) \<Rightarrow> 'a array2d list" where
  "entry w hc R = map (\<lambda>k. \<lparr>ncols = w, rows = R k\<rparr>) [0..<hc]"

definition tile_ok :: "'a tensor \<Rightarrow> nat \<Rightarrow> nat \<Rightarrow> bool" where
  "tile_ok logits hc i \<longleftrightarrow> i < length (t_data logits) \<and> hc \<le> length (t_data logits ! i)"


text \<open>
  The rows of an image that are not padding: of every tile of the group, the first
  \<open>validHeight\<close> rows, top to bottom.
\<close>

definition valid_rows :: "'a tensor \<Rightarrow> (nat \<times> nat) list \<Rightarrow> nat \<Rightarrow> 'a list list" where
  "valid_rows logits g k = concat (map (\<lambda>(i, h). take h (t_data logits ! i ! k)) g)"

section \<open>The Inference Adapter and the generator \<open>batch_detection\<close>\<close>

text \<open>
  \<open>surya.settings\<close> is not among the sources; the settings the code reads are the
  fields of a record, so that every theorem holds for every configuration it does not
  exclude by a hypothesis.
\<close>

record settings =
  DETECTOR_BATCH_SIZE :: "int option"
  TORCH_DEVICE_MODEL :: string
  IN_STREAMLIT :: bool
  DETECTOR_MIN_PARALLEL_THRESH :: int
  DETECTOR_POSTPROCESSING_CPU_WORKERS :: int

definition get_batch_size :: "settings \<Rightarrow> int" where
  "get_batch_size st =
     (case DETECTOR_BATCH_SIZE st of
        Some batch_size \<Rightarrow> batch_size
      | None \<Rightarrow>
          (let batch_size = 8;
               batch_size = (if TORCH_DEVICE_MODEL st = ''mps'' then 8 else batch_size);
               batch_size = (if TORCH_DEVICE_MODEL st = ''cuda'' then 36 else batch_size)
           in batch_size))"

text \<open>
  The collaborators of \<open>batch_detection\<close> that are not among the sources are the fields
  of a record: the model with its configuration, the processor's size, PIL's
  \<open>image.size\<close> and \<open>image.convert("RGB")\<close>, the functions \<open>get_total_splits\<close>,
  \<open>split_image\<close> and \<open>prepare_image_detection\<close> of \<open>surya.input.processing\<close>, and
  torch's \<open>F.interpolate\<close> with its \<open>size\<close>, \<open>mode\<close> and \<open>align_corners\<close> arguments.
  \<open>model\<close> stands for stacking the prepared tiles, moving them to the device, calling the
  model in inference mode and reading \<open>pred.logits\<close>. \<open>'img\<close> is a PIL image, \<open>'tens\<close>
  a prepared tile, \<open>'a\<close> a value of the logits. \<open>range(heatmap_count)\<close> is empty for a
  count that is not positive, so the count is a \<open>nat\<close>.
\<close>

datatype interp_mode = Nearest | Bilinear | Bicubic

record ('img, 'tens, 'a) detector =
  num_labels :: nat
  processor_height :: nat
  processor_width :: nat
  image_size :: "'img \<Rightarrow> nat \<times> nat"
  get_total_splits :: "nat \<times> nat \<Rightarrow> int"
  convert_rgb :: "'img \<Rightarrow> 'img"
  split_image :: "'img \<Rightarrow> 'img list \<times> nat list"
  prepare_image_detection :: "'img \<Rightarrow> 'tens"
  model :: "'tens list \<Rightarrow> 'a tensor"
  interpolate :: "'a tensor \<Rightarrow> nat list \<Rightarrow> interp_mode \<Rightarrow> bool \<Rightarrow> 'a tensor"

text \<open>
  An element of the input list: a PIL image or any other Python object
  (\<open>isinstance(image, Image.Image)\<close> tells them apart).
\<close>

datatype 'img pyobj = PILImage (the_image: 'img) | NotAnImage

fun is_image :: "'img pyobj \<Rightarrow> bool" where
  "is_image (PILImage im) = True"
| "is_image NotAnImage = False"

text \<open>
  The Inference Adapter (lines 75 to 86):
  \<^verbatim>\<open>
    batch = torch.stack(image_splits, dim=0).to(model.dtype).to(model.device)
    with torch.inference_mode():
        pred = model(pixel_values=batch)
    logits = pred.logits
    correct_shape = [processor.size["height"], processor.size["width"]]
    current_shape = list(logits.shape[2:])
    if current_shape != correct_shape:
        logits = F.interpolate(logits, size=correct_shape, mode='bilinear', align_corners=False)
  \<close>
\<close>

definition inference_adapter :: "('img, 'tens, 'a) detector \<Rightarrow> 'tens list \<Rightarrow> 'a tensor" where
  "inference_adapter d image_splits =
     (let logits = model d image_splits;
          correct_shape = [processor_height d, processor_width d];
          current_shape = [t_height logits, t_width logits]
      in if current_shape \<noteq> correct_shape
         then interpolate d logits correct_shape Bilinear False
         else logits)"

text \<open>
  The body of the loop over the planned batches (lines 61 to 105), for one batch: the
  images of the batch are tiled, the tiles prepared and given to the model, and the
  logits reassembled. The result is what the generator yields for the batch, or the
  exception that ends the generator; with it comes the list of model invocations the
  batch made (the number of tiles of each), which is empty when \<open>torch.stack\<close> raises on
  a batch without tiles. The indices of a batch are positions of the input list, so
  \<open>images[j]\<close> and \<open>orig_sizes[j]\<close> are in range.
\<close>

type_synonym 'a yielded = "'a array2d list list \<times> (nat \<times> nat) list"

definition detect_batch ::
  "('img, 'tens, 'a) detector \<Rightarrow> 'img list \<Rightarrow> (nat \<times> nat) list \<Rightarrow> nat list
   \<Rightarrow> nat list \<times> (error + 'a yielded)" where
  "detect_batch d images orig_sizes batch_image_idxs =
     (let batch_images = map (\<lambda>j. convert_rgb d (images ! j)) batch_image_idxs;
          parts = map (split_image d) batch_images;
          image_splits = concat (map fst parts);
          split_index = split_index_of 0 (map fst parts);
          split_heights = concat (map snd parts);
          image_splits = map (prepare_image_detection d) image_splits
      in if image_splits = [] then ([], Inl RuntimeError)
         else
           (let logits = inference_adapter d image_splits
            in ([length image_splits],
                case reassemble (processor_height d) (num_labels d) logits
                       split_index split_heights of
                  Inl e \<Rightarrow> Inl e
                | Inr preds \<Rightarrow> Inr (preds, map (\<lambda>j. orig_sizes ! j) batch_image_idxs))))"

text \<open>
  The generator, run until it is exhausted or raises: the batches it planned, the model
  invocations it made, what it yielded, in order, and the exception that ended it, if
  one did. An exception ends the generator at once, so nothing is planned before a
  failed \<^verbatim>\<open>assert\<close> and no batch is looked at after one that raised.
\<close>

record 'a generator_run =
  planned :: "nat list list"
  model_calls :: "nat list"
  yielded :: "'a yielded list"
  raised :: "error option"

fun run_batches ::
  "('img, 'tens, 'a) detector \<Rightarrow> 'img list \<Rightarrow> (nat \<times> nat) list \<Rightarrow> nat list list
   \<Rightarrow> nat list \<times> 'a yielded list \<times> error option" where
  "run_batches d images orig_sizes [] = ([], [], None)"
| "run_batches d images orig_sizes (b # bs) =
     (case detect_batch d images orig_sizes b of
        (calls, Inl e) \<Rightarrow> (calls, [], Some e)
      | (calls, Inr y) \<Rightarrow>
          (case run_batches d images orig_sizes bs of
             (calls1, ys, r) \<Rightarrow> (calls @ calls1, y # ys, r)))"

text \<open>
  \<open>batch_detection\<close> (lines 31 to 105). The \<^verbatim>\<open>assert\<close> is the first statement of the
  body; after it every element is an image.
\<close>

definition batch_detection ::
  "('img, 'tens, 'a) detector \<Rightarrow> settings \<Rightarrow> 'img pyobj list \<Rightarrow> int option
   \<Rightarrow> 'a generator_run" where
  "batch_detection d st images batch_size =
     (if \<not> list_all is_image images
      then \<lparr>planned = [], model_calls = [], yielded = [], raised = Some AssertionError\<rparr>
      else
        (let batch_size = (case batch_size of None \<Rightarrow> get_batch_size st | Some b \<Rightarrow> b);
             pil_images = map the_image images;
             orig_sizes = map (image_size d) pil_images;
             splits_per_image = map (get_total_splits d) orig_sizes;
             batches = plan_batches splits_per_image batch_size
         in case run_batches d pil_images orig_sizes batches of
              (calls, ys, r) \<Rightarrow>
                \<lparr>planned = batches, model_calls = calls, yielded = ys, raised = r\<rparr>))"

section \<open>Post-processing and the pipeline \<open>batch_text_detection\<close>\<close>

text \<open>
  The collaborators of \<open>parallel_get_lines\<close> that are not among the sources:
  \<open>get_and_clean_boxes\<close> of \<open>surya.postprocessing.heatmap\<close>, \<open>get_vertical_lines\<close>
  of \<open>surya.postprocessing.affinity\<close>, and \<open>fromarray\<close>, which stands for
  \<open>Image.fromarray((a * 255).astype(np.uint8))\<close>. \<open>'b\<close> is a bounding box, \<open>'l\<close> a
  vertical line and \<open>'p\<close> a rendered image.
\<close>

record ('a, 'b, 'l, 'p) postprocessor =
  get_and_clean_boxes :: "'a array2d \<Rightarrow> nat list \<Rightarrow> nat \<times> nat \<Rightarrow> 'b list"
  get_vertical_lines :: "'a array2d \<Rightarrow> nat list \<Rightarrow> nat \<times> nat \<Rightarrow> 'l list"
  fromarray :: "'a array2d \<Rightarrow> 'p"

record ('b, 'l, 'p) TextDetectionResult =
  bboxes :: "'b list"
  vertical_lines :: "'l list"
  heatmap :: 'p
  affinity_map :: 'p
  image_bbox :: "nat list"

text \<open>
  \<open>parallel_get_lines\<close> (lines 108 to 124). The unpacking \<open>heatmap, affinity_map = preds\<close>
  raises \<open>ValueError\<close> unless \<open>preds\<close> has exactly two elements. The local variables
  \<open>heatmap\<close>, \<open>affinity_map\<close>, \<open>bboxes\<close> and \<open>vertical_lines\<close> are renamed, the
  fields of the result having these names.
\<close>

definition parallel_get_lines ::
  "('a, 'b, 'l, 'p) postprocessor \<Rightarrow> 'a array2d list \<Rightarrow> nat \<times> nat
   \<Rightarrow> error + ('b, 'l, 'p) TextDetectionResult" where
  "parallel_get_lines pp preds orig_sizes =
     (case preds of
        [heatmap_arr, affinity_arr] \<Rightarrow>
          (let heat_img = fromarray pp heatmap_arr;
               aff_img = fromarray pp affinity_arr;
               affinity_size = rev (shape affinity_arr);
               heatmap_size = rev (shape heatmap_arr);
               boxes = get_and_clean_boxes pp heatmap_arr heatmap_size orig_sizes;
               lines = get_vertical_lines pp affinity_arr affinity_size orig_sizes
           in Inr \<lparr>bboxes = boxes, vertical_lines = lines, heatmap = heat_img,
                    affinity_map = aff_img,
                    image_bbox = [0, 0, fst orig_sizes, snd orig_sizes]\<rparr>)
      | _ \<Rightarrow> Inl ValueError)"

text \<open>
  The two ways the consumer maps \<open>parallel_get_lines\<close> over a batch.
  \<open>executor.map(fn, preds, orig_sizes)\<close> submits one task per element of
  \<open>zip(preds, orig_sizes)\<close> and hands the results back in the order of submission,
  whatever the order in which the workers finish; \<open>list(...)\<close> raises the first exception
  in that order. The list comprehension calls the function on the same pairs in order.
\<close>

definition executor_map ::
  "('x \<Rightarrow> 'y \<Rightarrow> error + 'r) \<Rightarrow> 'x list \<Rightarrow> 'y list \<Rightarrow> error + 'r list" where
  "executor_map fn xs ys = collect (map (\<lambda>args. fn (fst args) (snd args)) (zip xs ys))"

definition comprehension ::
  "('x \<Rightarrow> 'y \<Rightarrow> error + 'r) \<Rightarrow> 'x list \<Rightarrow> 'y list \<Rightarrow> error + 'r list" where
  "comprehension fn preds orig_sizes =
     collect (map (\<lambda>(pred, orig_size). fn pred orig_size) (zip preds orig_sizes))"

text \<open>
  What a thread does is recorded as a list of events: the producer puts batches and the
  sentinel; the consumer gets them, opens and closes the worker pool, and maps a batch
  over the pool (\<open>PoolMap n\<close>, \<open>n\<close> tasks) or in process (\<open>LocalMap n\<close>, \<open>n\<close> calls at
  most). A thread ends by returning from its function, by an exception (which ends the
  thread only: the interpreter prints it and \<open>join\<close> returns), or never, blocked in a
  queue operation.
\<close>

datatype event =
  PutBatch | PutSentinel | GetBatch | GetSentinel
  | PoolOpen int | PoolMap nat | PoolClose | LocalMap nat

datatype thread_end = Finished | Died error | Blocked

record 'r consumer_state =
  results :: "'r list"
  log :: "event list"

text \<open>
  The producer (lines 136 to 139) puts what the generator yields and then the sentinel
  \<open>None\<close>; when the generator raises, the exception ends the thread before the sentinel
  is put. The items are listed in the order they are put, which is the order the
  consumer gets them in: the queue is first-in first-out, with one thread at each end.
\<close>

definition inference_producer ::
  "'a generator_run \<Rightarrow> 'a yielded option list \<times> event list \<times> thread_end" where
  "inference_producer gen =
     (case raised gen of
        None \<Rightarrow> (map Some (yielded gen) @ [None],
                 map (\<lambda>batch. PutBatch) (yielded gen) @ [PutSentinel], Finished)
      | Some e \<Rightarrow> (map Some (yielded gen), map (\<lambda>batch. PutBatch) (yielded gen), Died e))"

text \<open>
  The two loops of the consumer (lines 144 to 153 and 155 to 165), over the items the
  queue will ever hold. \<open>batch_queue.get()\<close> on a queue that stays empty never returns.
\<close>

fun consumer_pool_loop ::
  "('a, 'b, 'l, 'p) postprocessor \<Rightarrow> 'a yielded option list
   \<Rightarrow> ('b, 'l, 'p) TextDetectionResult consumer_state
   \<Rightarrow> ('b, 'l, 'p) TextDetectionResult consumer_state \<times> thread_end" where
  "consumer_pool_loop pp [] s = (s, Blocked)"
| "consumer_pool_loop pp (None # q) s = (s\<lparr>log := log s @ [GetSentinel]\<rparr>, Finished)"
| "consumer_pool_loop pp (Some batch # q) s =
     (case batch of (preds, orig_sizes) \<Rightarrow>
        (let s1 = s\<lparr>log := log s @ [GetBatch, PoolMap (length (zip preds orig_sizes))]\<rparr>
         in case executor_map (parallel_get_lines pp) preds orig_sizes of
              Inl e \<Rightarrow> (s1, Died e)
            | Inr batch_results \<Rightarrow>
                consumer_pool_loop pp q (s1\<lparr>results := results s1 @ batch_results\<rparr>)))"

fun consumer_local_loop ::
  "('a, 'b, 'l, 'p) postprocessor \<Rightarrow> 'a yielded option list
   \<Rightarrow> ('b, 'l, 'p) TextDetectionResult consumer_state
   \<Rightarrow> ('b, 'l, 'p) TextDetectionResult consumer_state \<times> thread_end" where
  "consumer_local_loop pp [] s = (s, Blocked)"
| "consumer_local_loop pp (None # q) s = (s\<lparr>log := log s @ [GetSentinel]\<rparr>, Finished)"
| "consumer_local_loop pp (Some batch # q) s =
     (case batch of (preds, orig_sizes) \<Rightarrow>
        (let s1 = s\<lparr>log := log s @ [GetBatch, LocalMap (length (zip preds orig_sizes))]\<rparr>
         in case comprehension (parallel_get_lines pp) preds orig_sizes of
              Inl e \<Rightarrow> (s1, Died e)
            | Inr batch_results \<Rightarrow>
                consumer_local_loop pp q (s1\<lparr>results := results s1 @ batch_results\<rparr>)))"

text \<open>
  The consumer (lines 141 to 165). \<open>ProcessPoolExecutor(max_workers=n)\<close> raises
  \<open>ValueError\<close> for \<open>n \<le> 0\<close>. The \<^verbatim>\<open>with\<close> statement shuts the pool down when the block
  is left, by \<^verbatim>\<open>break\<close> or by an exception; a consumer blocked in \<open>get\<close> never leaves it.
\<close>

definition postprocessing_consumer ::
  "('a, 'b, 'l, 'p) postprocessor \<Rightarrow> bool \<Rightarrow> int \<Rightarrow> 'a yielded option list
   \<Rightarrow> ('b, 'l, 'p) TextDetectionResult consumer_state \<times> thread_end" where
  "postprocessing_consumer pp parallelize max_workers q =
     (if parallelize then
        (if max_workers \<le> 0 then (\<lparr>results = [], log = []\<rparr>, Died ValueError)
         else
           (case consumer_pool_loop pp q \<lparr>results = [], log = [PoolOpen max_workers]\<rparr> of
              (s, e) \<Rightarrow> (if e = Blocked then (s, e) else (s\<lparr>log := log s @ [PoolClose]\<rparr>, e))))
      else consumer_local_loop pp q \<lparr>results = [], log = []\<rparr>)"

text \<open>
  \<open>batch_text_detection\<close> (lines 127 to 178) starts the two threads, joins them and returns
  \<open>results\<close>. It returns when both threads have ended, and never when one of them is
  blocked for ever:
  \<^item> a consumer that got the sentinel has taken every item, so the producer has ended;
  \<^item> a consumer blocked on the empty queue never ends (the producer died before the
    sentinel);
  \<^item> after a consumer that died, the producer ends if the items the consumer left fit
    into the queue of capacity 4, and is blocked in \<open>put\<close> otherwise.
  The number of items the consumer took is the number of its \<open>get\<close> events; the
  producer of a dead consumer puts that many items and as many more as the queue holds.
  \<open>generator\<close> is the generator run to its end; a blocked producer leaves it suspended
  before the batches it did not put.
\<close>

datatype 'r outcome = Returned "'r list" | Hangs

definition taken :: "event list \<Rightarrow> nat" where
  "taken evs = length (filter (\<lambda>ev. ev = GetBatch \<or> ev = GetSentinel) evs)"

record ('a, 'r) pipeline_run =
  generator :: "'a generator_run"
  producer_log :: "event list"
  producer_end :: thread_end
  consumer_log :: "event list"
  consumer_end :: thread_end
  outcome :: "'r outcome"

definition queue_maxsize :: nat where
  "queue_maxsize = 4"

definition batch_text_detection ::
  "('img, 'tens, 'a) detector \<Rightarrow> ('a, 'b, 'l, 'p) postprocessor \<Rightarrow> settings
   \<Rightarrow> 'img pyobj list \<Rightarrow> int option
   \<Rightarrow> ('a, ('b, 'l, 'p) TextDetectionResult) pipeline_run" where
  "batch_text_detection d pp st images batch_size =
     (let detection_generator = batch_detection d st images batch_size;
          max_workers = min (DETECTOR_POSTPROCESSING_CPU_WORKERS st) (int (length images));
          parallelize = (\<not> IN_STREAMLIT st
                         \<and> int (length images) \<ge> DETECTOR_MIN_PARALLEL_THRESH st)
      in case inference_producer detection_generator of
           (items, plog, pend) \<Rightarrow>
             (case postprocessing_consumer pp parallelize max_workers items of
                (s, cend) \<Rightarrow>
                  \<lparr>generator = detection_generator,
                   producer_log = (case cend of
                       Died e \<Rightarrow> take (taken (log s) + queue_maxsize) plog
                     | _ \<Rightarrow> plog),
                   producer_end = (case cend of
                       Died e \<Rightarrow> (if length items - taken (log s) \<le> queue_maxsize
                                   then pend else Blocked)
                     | _ \<Rightarrow> pend),
                   consumer_log = log s,
                   consumer_end = cend,
                   outcome = (case cend of
                       Finished \<Rightarrow> Returned (results s)
                     | Blocked \<Rightarrow> Hangs
                     | Died e \<Rightarrow> (if length items - taken (log s) \<le> queue_maxsize
                                   then Returned (results s) else Hangs))\<rparr>))"

section \<open>What the collaborators are relied on for\<close>

text \<open>
  Section 6 of the spec gives the model's contract: for a batch of \<open>tileCount\<close> tiles the
  logits have the shape \<open>[tileCount, heatmapChannels, H', W']\<close>. \<open>F.interpolate\<close> with
  \<open>size = [h, w]\<close> turns an array of shape \<open>[N, C, H, W]\<close> into one of shape
  \<open>[N, C, h, w]\<close>. Section 4.1 gives the Tiler's: an ordered sequence of tiles covering
  the image, each with its valid height; the code tiles only images that have a tile.
  \<open>parallel_get_lines\<close> unpacks two heatmaps, the region and the affinity heatmap.
\<close>

definition model_contract :: "('img, 'tens, 'a) detector \<Rightarrow> bool" where
  "model_contract d \<longleftrightarrow>
     (\<forall>ts. wf_tensor (model d ts) \<and> length (t_data (model d ts)) = length ts \<and>
           list_all (\<lambda>tile_channels. length tile_channels = num_labels d) (t_data (model d ts)))"

definition interpolate_contract :: "('img, 'tens, 'a) detector \<Rightarrow> bool" where
  "interpolate_contract d \<longleftrightarrow>
     (\<forall>t h w mode align_corners.
        wf_tensor t \<longrightarrow>
          wf_tensor (interpolate d t [h, w] mode align_corners) \<and>
          t_height (interpolate d t [h, w] mode align_corners) = h \<and>
          t_width (interpolate d t [h, w] mode align_corners) = w \<and>
          map length (t_data (interpolate d t [h, w] mode align_corners)) = map length (t_data t))"

definition tiler_contract :: "('img, 'tens, 'a) detector \<Rightarrow> bool" where
  "tiler_contract d \<longleftrightarrow>
     (\<forall>im. fst (split_image d im) \<noteq> [] \<and>
           length (snd (split_image d im)) = length (fst (split_image d im)))"

section \<open>A small instance\<close>

text \<open>
  Stand-ins for the collaborators, to run the code on: an image is its size
  \<open>(width, height)\<close>; the window is two rows by one column; an image is tiled by the
  Tiler of the spec, an image of at most two rows being its own single tile; the model
  gives every tile two channels of one row and one column, so that its logits have to be
  resampled; resampling repeats the nearest value.
\<close>

definition example_heights :: "nat \<Rightarrow> nat list" where
  "example_heights h = (if h \<le> 2 then [h] else tileHeights h 2)"

definition example_interpolate ::
  "nat tensor \<Rightarrow> nat list \<Rightarrow> interp_mode \<Rightarrow> bool \<Rightarrow> nat tensor" where
  "example_interpolate t sz mode align_corners =
     \<lparr>t_height = sz ! 0, t_width = sz ! 1,
      t_data = map (map (\<lambda>ch. map (\<lambda>r. map (\<lambda>c. ch ! (r * t_height t div sz ! 0)
                                                    ! (c * t_width t div sz ! 1))
                                          [0..<sz ! 1])
                               [0..<sz ! 0]))
                 (t_data t)\<rparr>"

definition example_detector :: "(nat \<times> nat, nat, nat) detector" where
  "example_detector =
     \<lparr>num_labels = 2, processor_height = 2, processor_width = 1,
      image_size = (\<lambda>im. im),
      get_total_splits = (\<lambda>sz. int (length (example_heights (snd sz)))),
      convert_rgb = (\<lambda>im. im),
      split_image = (\<lambda>im. (map (\<lambda>h. (fst im, h)) (example_heights (snd im)),
                            example_heights (snd im))),
      prepare_image_detection = (\<lambda>im. snd im),
      model = (\<lambda>ts. \<lparr>t_height = 1, t_width = 1, t_data = map (\<lambda>t. [[[t]], [[t + 10]]]) ts\<rparr>),
      interpolate = example_interpolate\<rparr>"

definition example_postprocessor :: "(nat, nat, nat, nat) postprocessor" where
  "example_postprocessor =
     \<lparr>get_and_clean_boxes = (\<lambda>a sz orig. [length (rows a)]),
      get_vertical_lines = (\<lambda>a sz orig. sz),
      fromarray = (\<lambda>a. sum_list (map sum_list (rows a)))\<rparr>"

definition example_settings :: settings where
  "example_settings =
     \<lparr>DETECTOR_BATCH_SIZE = None, TORCH_DEVICE_MODEL = ''cpu'', IN_STREAMLIT = False,
      DETECTOR_MIN_PARALLEL_THRESH = 2, DETECTOR_POSTPROCESSING_CPU_WORKERS = 8\<rparr>"

section \<open>Verification of the Batch Planner\<close>

text \<open>
  The loop invariant after the images \<open>0, \<dots>, i - 1\<close>: the closed batches followed
  by the open one list exactly these images in order, every closed batch is non-empty and
  within the soft cap, the running total is the tile count of the open batch, and the
  open batch, when it holds an image, is within the soft cap too.
\<close>

definition planner_inv :: "int list \<Rightarrow> int \<Rightarrow> nat \<Rightarrow> planner_state \<Rightarrow> bool" where
  "planner_inv sp bs i s \<longleftrightarrow>
     concat (batches s) @ current_batch s = [0..<i] \<and>
     (\<forall>b \<in> set (batches s). b \<noteq> [] \<and> within_budget sp bs b) \<and>
     current_batch_size s = batch_tiles sp (current_batch s) \<and>
     (current_batch s = [] \<or> within_budget sp bs (current_batch s))"

lemma planner_inv_init: "planner_inv sp bs 0 planner_init"
  by (simp add: planner_inv_def planner_init_def batch_tiles_def)

lemma planner_inv_step:
  assumes "planner_inv sp bs i s"
  shows "planner_inv sp bs (Suc i) (plan_step sp bs s i)"
proof (cases "current_batch_size s + sp ! i > bs")
  case True
  have single: "within_budget sp bs [i]"
    by (auto simp: within_budget_def batch_tiles_def)
  from assms True single show ?thesis
    by (auto simp: planner_inv_def plan_step_def close_batch_def batch_tiles_def Let_def)
next
  case False
  with assms have "within_budget sp bs (current_batch s @ [i])"
    by (simp add: planner_inv_def within_budget_def batch_tiles_def)
  with assms False show ?thesis
    by (auto simp: planner_inv_def plan_step_def batch_tiles_def Let_def)
qed

lemma planner_inv_loop: "planner_inv sp bs n (plan_loop sp bs n)"
proof (induction n)
  case 0
  show ?case by (simp add: plan_loop_def planner_inv_init)
next
  case (Suc n)
  then show ?case
    by (simp add: plan_loop_def planner_inv_step)
qed

lemma plan_batches_concat: "concat (plan_batches sp bs) = [0..<length sp]"
  using planner_inv_loop [of sp bs "length sp"]
  by (auto simp: plan_batches_def planner_inv_def Let_def)

lemma plan_batches_nonempty: "b \<in> set (plan_batches sp bs) \<Longrightarrow> b \<noteq> []"
  using planner_inv_loop [of sp bs "length sp"]
  by (auto simp: plan_batches_def planner_inv_def Let_def split: if_splits)

lemma plan_batches_budget: "b \<in> set (plan_batches sp bs) \<Longrightarrow> within_budget sp bs b"
  using planner_inv_loop [of sp bs "length sp"]
  by (auto simp: plan_batches_def planner_inv_def Let_def split: if_splits)

text \<open>An element of a duplicate-free concatenation lies in one segment only.\<close>

lemma distinct_concat_unique:
  "distinct (concat xss) \<Longrightarrow> k < length xss \<Longrightarrow> k' < length xss \<Longrightarrow>
   i \<in> set (xss ! k) \<Longrightarrow> i \<in> set (xss ! k') \<Longrightarrow> k = k'"
proof (induction xss arbitrary: k k')
  case Nil
  then show ?case by simp
next
  case (Cons xs xss)
  show ?case
  proof (cases k)
    case 0
    show ?thesis
    proof (cases k')
      case 0
      with \<open>k = 0\<close> show ?thesis by simp
    next
      case (Suc m)
      with Cons.prems \<open>k = 0\<close> have "i \<in> set xs" "i \<in> set (concat xss)"
        by auto
      with Cons.prems(1) show ?thesis by auto
    qed
  next
    case (Suc j)
    show ?thesis
    proof (cases k')
      case 0
      with Cons.prems Suc have "i \<in> set xs" "i \<in> set (concat xss)"
        by auto
      with Cons.prems(1) show ?thesis by auto
    next
      case (Suc m)
      with Cons.prems \<open>k = Suc j\<close> have "j = m"
        by (intro Cons.IH) auto
      with Suc \<open>k = Suc j\<close> show ?thesis by simp
    qed
  qed
qed

lemma concat_upt_unique:
  assumes "concat xss = [0..<n]" "i < n"
  shows "\<exists>!k. k < length xss \<and> i \<in> set (xss ! k)"
proof -
  have d: "distinct (concat xss)" using assms(1) by simp
  have "i \<in> set (concat xss)" using assms by simp
  then obtain xs where "xs \<in> set xss" "i \<in> set xs" by auto
  then obtain k where k: "k < length xss" "i \<in> set (xss ! k)"
    by (metis in_set_conv_nth)
  have "k' = k" if "k' < length xss" "i \<in> set (xss ! k')" for k'
    using distinct_concat_unique [OF d that(1) k(1) that(2) k(2)] .
  with k show ?thesis by blast
qed

text \<open>
  Claim C1. For every list of tile counts (one per input image) and every budget, the
  batches of the Batch Planner, concatenated, are the image indices \<open>0, \<dots>, n - 1\<close> in
  input order, so every image is listed exactly once; every image lies in exactly one
  batch, so all its tiles are submitted together; and the total tile count of a batch
  exceeds the budget only when the batch is a single image whose own tile count exceeds
  it. The statement holds for every integer budget, in particular for every positive one.
\<close>

theorem planner_sound:
  "concat (plan_batches sp bs) = [0..<length sp] \<and>
   (\<forall>i < length sp.
      \<exists>!k. k < length (plan_batches sp bs) \<and> i \<in> set (plan_batches sp bs ! k)) \<and>
   (\<forall>b \<in> set (plan_batches sp bs).
      batch_tiles sp b \<le> bs \<or> (\<exists>j. b = [j] \<and> sp ! j > bs))"
proof (intro conjI allI impI ballI)
  show c: "concat (plan_batches sp bs) = [0..<length sp]"
    by (rule plan_batches_concat)
  show "\<exists>!k. k < length (plan_batches sp bs) \<and> i \<in> set (plan_batches sp bs ! k)"
    if "i < length sp" for i
    using concat_upt_unique [OF c that] .
  show "batch_tiles sp b \<le> bs \<or> (\<exists>j. b = [j] \<and> sp ! j > bs)"
    if "b \<in> set (plan_batches sp bs)" for b
    using plan_batches_budget [OF that]
    by (cases b) (auto simp: within_budget_def)
qed

lemma plan_batches_example: "plan_batches [5, 3, 1, 1] 4 = [[0], [1, 2], [3]]"
  by code_simp

theorem planner_sound_witness:
  "plan_batches [5, 3, 1, 1] 4 = [[0], [1, 2], [3]] \<and>
   concat (plan_batches [5, 3, 1, 1] 4) = [0, 1, 2, 3] \<and>
   (\<exists>!k. k < length (plan_batches [5, 3, 1, 1] 4) \<and> 2 \<in> set (plan_batches [5, 3, 1, 1] 4 ! k)) \<and>
   batch_tiles [5, 3, 1, 1] [1, 2] \<le> 4 \<and>
   (\<exists>j. [0] = [j] \<and> [5, 3, 1, 1 :: int] ! j > 4)"
proof -
  note e = plan_batches_example
  note t = planner_sound [of "[5, 3, 1, 1]" 4]
  have c: "concat (plan_batches [5, 3, 1, 1] 4) = [0, 1, 2, 3]"
    using t by (simp add: upt_rec)
  have u: "\<exists>!k. k < length (plan_batches [5, 3, 1, 1] 4) \<and> 2 \<in> set (plan_batches [5, 3, 1, 1] 4 ! k)"
    using t by simp
  have "[1, 2] \<in> set (plan_batches [5, 3, 1, 1] 4)" by (simp add: e)
  with t have "batch_tiles [5, 3, 1, 1] [1, 2] \<le> 4 \<or> (\<exists>j. [1, 2] = [j] \<and> [5, 3, 1, 1 :: int] ! j > 4)"
    by blast
  then have b1: "batch_tiles [5, 3, 1, 1] [1, 2] \<le> 4" by simp
  have "[0] \<in> set (plan_batches [5, 3, 1, 1] 4)" by (simp add: e)
  with t have "batch_tiles [5, 3, 1, 1] [0] \<le> 4 \<or> (\<exists>j. [0] = [j] \<and> [5, 3, 1, 1 :: int] ! j > 4)"
    by blast
  then have b2: "\<exists>j. [0] = [j] \<and> [5, 3, 1, 1 :: int] ! j > 4"
    by (simp add: batch_tiles_def)
  from e c u b1 b2 show ?thesis by blast
qed

text \<open>
  Claim C4, as the spec states it: ten images, the first two of three tiles each and the
  other eight of one tile each, with a budget of four tiles, are planned as
  \<open>[image0]\<close>, \<open>[image1]\<close> and two batches of four one-tile images. The planner does
  not do that: after \<open>image1\<close> the running total is three, and \<open>3 + 1 > 4\<close> is false,
  so \<open>image2\<close> joins \<open>image1\<close>.
\<close>

theorem planner_scenario_counterexample:
  "plan_batches [3, 3, 1, 1, 1, 1, 1, 1, 1, 1] 4 \<noteq> [[0], [1], [2, 3, 4, 5], [6, 7, 8, 9]]"
  by code_simp

text \<open>
  Claim C4, amended: the planner produces exactly four batches, \<open>[image0]\<close>,
  \<open>[image1, image2]\<close> (four tiles), \<open>[image3, \<dots>, image6]\<close> and
  \<open>[image7, image8, image9]\<close>; their concatenation lists the ten images once each, in
  order.
\<close>

theorem planner_scenario:
  "plan_batches [3, 3, 1, 1, 1, 1, 1, 1, 1, 1] 4 = [[0], [1, 2], [3, 4, 5, 6], [7, 8, 9]] \<and>
   length (plan_batches [3, 3, 1, 1, 1, 1, 1, 1, 1, 1] 4) = 4 \<and>
   concat (plan_batches [3, 3, 1, 1, 1, 1, 1, 1, 1, 1] 4) = [0, 1, 2, 3, 4, 5, 6, 7, 8, 9]"
  by code_simp


section \<open>Verification of the Tiler\<close>

lemma tiler_from_0 [simp]: "tiler_from idx W k 0 = []"
  by (subst tiler_from.simps) simp

lemma tiler_from_pos:
  "0 < r \<Longrightarrow> 0 < W \<Longrightarrow>
   tiler_from idx W k r =
     \<lparr>sourceImageIndex = idx, validHeight = min W r, orderWithinImage = k\<rparr>
       # tiler_from idx W (Suc k) (r - W)"
  by (subst tiler_from.simps) simp

lemma count_pos: "0 < r \<Longrightarrow> 0 < W \<Longrightarrow> (r + W - 1) div W = Suc ((r - 1) div W)"
proof -
  assume "0 < r" "0 < W"
  then have "r + W - 1 = (r - 1) + W" by simp
  then have "(r + W - 1) div W = ((r - 1) + W) div W" by simp
  also have "\<dots> = Suc ((r - 1) div W)" using \<open>0 < W\<close> by simp
  finally show ?thesis .
qed

lemma tiler_from_length:
  "0 < W \<Longrightarrow> length (tiler_from idx W k r) = (r + W - 1) div W"
proof (induction idx W k r rule: tiler_from.induct)
  case (1 idx W k r)
  show ?case
  proof (cases "r = 0")
    case True
    with 1(2) show ?thesis by simp
  next
    case False
    with 1 have ih: "length (tiler_from idx W (Suc k) (r - W)) = (r - W + W - 1) div W"
      by simp
    have unf: "length (tiler_from idx W k r) = Suc (length (tiler_from idx W (Suc k) (r - W)))"
      using False 1(2) by (simp add: tiler_from_pos)
    have cp: "(r + W - 1) div W = Suc ((r - 1) div W)"
      using False 1(2) by (intro count_pos) simp_all
    show ?thesis
    proof (cases "r \<le> W")
      case True
      then have "r - W = 0" by simp
      then have "length (tiler_from idx W (Suc k) (r - W)) = 0" by simp
      moreover from True False have "(r - 1) div W = 0" by simp
      ultimately show ?thesis using unf cp by simp
    next
      case f: False
      then have "r - 1 = (r - W - 1) + W" by simp
      then have "(r - 1) div W = ((r - W - 1) + W) div W" by simp
      also have "\<dots> = Suc ((r - W - 1) div W)" using 1(2) by simp
      finally have a: "(r - 1) div W = Suc ((r - W - 1) div W)" .
      from f have b: "(r - W + W - 1) div W = Suc ((r - W - 1) div W)"
        using a by simp
      from f 1(2) have c: "(r - W + W - 1) div W = (r - 1) div W" by simp
      show ?thesis using ih unf cp c by simp
    qed
  qed
qed

lemma tiler_from_sum:
  "0 < W \<Longrightarrow> sum_list (map validHeight (tiler_from idx W k r)) = r"
proof (induction idx W k r rule: tiler_from.induct)
  case (1 idx W k r)
  show ?case
  proof (cases "r = 0")
    case True
    then show ?thesis by simp
  next
    case False
    with 1 have ih: "sum_list (map validHeight (tiler_from idx W (Suc k) (r - W))) = r - W"
      by simp
    have "sum_list (map validHeight (tiler_from idx W k r)) =
          min W r + sum_list (map validHeight (tiler_from idx W (Suc k) (r - W)))"
      using False 1(2) by (simp add: tiler_from_pos)
    also have "\<dots> = min W r + (r - W)" by (simp only: ih)
    also have "\<dots> = r" by simp
    finally show ?thesis .
  qed
qed

lemma tiler_from_valid:
  "0 < W \<Longrightarrow> t \<in> set (tiler_from idx W k r) \<Longrightarrow> 0 < validHeight t \<and> validHeight t \<le> W"
proof (induction idx W k r arbitrary: t rule: tiler_from.induct)
  case (1 idx W k r)
  show ?case
  proof (cases "r = 0")
    case True
    with 1(3) show ?thesis by simp
  next
    case False
    with 1(2,3) have "t = \<lparr>sourceImageIndex = idx, validHeight = min W r, orderWithinImage = k\<rparr>
        \<or> t \<in> set (tiler_from idx W (Suc k) (r - W))"
      by (simp add: tiler_from_pos)
    then show ?thesis
    proof
      assume "t = \<lparr>sourceImageIndex = idx, validHeight = min W r, orderWithinImage = k\<rparr>"
      with False 1(2) show ?thesis by simp
    next
      assume "t \<in> set (tiler_from idx W (Suc k) (r - W))"
      with 1(1) False 1(2) show ?thesis by blast
    qed
  qed
qed

lemma ceiling_as_div:
  assumes "0 < W"
  shows "int ((H + W - 1) div W) = \<lceil>real H / real W\<rceil>"
proof -
  define n where "n = (H + W - 1) div W"
  have lo: "n * W \<le> H + W - 1" unfolding n_def by simp
  have "H + W - 1 < n * W + W"
    unfolding n_def using assms
    by (metis add.commute dividend_less_times_div mult.commute)
  then have hi: "H \<le> n * W" using assms by simp
  from lo assms have lo': "n * W < H + W" by simp
  have a: "real H / real W \<le> real n"
  proof -
    from hi have "real H \<le> real n * real W"
      by (metis of_nat_le_iff of_nat_mult)
    with assms show ?thesis by (simp add: pos_divide_le_eq)
  qed
  have b: "real n - 1 < real H / real W"
  proof -
    from lo' have "real n * real W < real H + real W"
      by (metis of_nat_less_iff of_nat_mult of_nat_add)
    then have "(real n - 1) * real W < real H" by (simp add: algebra_simps)
    with assms show ?thesis by (simp add: pos_less_divide_eq)
  qed
  have "\<lceil>real H / real W\<rceil> = int n"
    by (rule ceiling_unique) (use a b in simp_all)
  then show ?thesis by (simp add: n_def)
qed

text \<open>
  Claim C5. For an image of height \<open>H\<close> and a window of positive height \<open>W\<close>, the tile
  count the Batch Planner uses is the ceiling of \<open>H / W\<close>, the Tiler produces exactly
  that many tiles, and their valid heights sum to \<open>H\<close>.
\<close>

theorem tiler_count_and_heights:
  assumes "0 < W"
  shows "int (countTiles H W) = \<lceil>real H / real W\<rceil> \<and>
         length (tiler idx H W) = countTiles H W \<and>
         sum_list (map validHeight (tiler idx H W)) = H"
  using assms
  by (simp add: countTiles_def tiler_def tiler_from_length tiler_from_sum ceiling_as_div
      del: One_nat_def)

lemma tiler_example:
  "map validHeight (tiler 0 10 4) = [4, 4, 2]"
  by (simp add: tiler_def tiler_from_pos)

theorem tiler_count_and_heights_witness:
  "(0::nat) < 4 \<and> int (countTiles 10 4) = \<lceil>real 10 / real 4\<rceil> \<and> countTiles 10 4 = 3 \<and>
   length (tiler 0 10 4) = countTiles 10 4 \<and>
   sum_list (map validHeight (tiler 0 10 4)) = 10 \<and>
   map validHeight (tiler 0 10 4) = [4, 4, 2]"
proof -
  have p: "(0::nat) < 4" by simp
  have c: "countTiles 10 4 = 3" by (simp add: countTiles_def)
  from tiler_count_and_heights [OF p, of 10 0] p c tiler_example show ?thesis
    by blast
qed


section \<open>Verification of the Tile Reassembler\<close>

lemma collect_map_Inr:
  "(\<And>x. x \<in> set xs \<Longrightarrow> f x = Inr (g x)) \<Longrightarrow> collect (map f xs) = Inr (map g xs)"
  by (induction xs) simp_all

lemma tile_heatmaps_ok:
  assumes "i < length (t_data logits)" "hc \<le> length (t_data logits ! i)"
  shows "tile_heatmaps logits i hc =
         Inr (map (\<lambda>k. \<lparr>ncols = t_width logits, rows = t_data logits ! i ! k\<rparr>) [0..<hc])"
  unfolding tile_heatmaps_def
  by (rule collect_map_Inr) (use assms in \<open>simp add: tensor_at_def\<close>)

lemma vstack_all_ok:
  assumes "length hs = hc" "length ps = hc"
    and "\<And>k. k < hc \<Longrightarrow> ncols (hs ! k) = w \<and> ncols (ps ! k) = w"
  shows "vstack_all hc hs ps =
         Inr (map (\<lambda>k. \<lparr>ncols = w, rows = rows (hs ! k) @ rows (ps ! k)\<rparr>) [0..<hc])"
  unfolding vstack_all_def
  by (rule collect_map_Inr) (use assms in \<open>simp add: vstack_def\<close>)

lemma step_first:
  assumes "tile_ok logits hc i" "length preds \<le> idx"
  shows "reassemble_step ph hc logits preds (i, idx, h) =
         Inr (preds @ [entry (t_width logits) hc (\<lambda>k. t_data logits ! i ! k)])"
  using assms by (simp add: reassemble_step_def tile_ok_def tile_heatmaps_ok entry_def)

lemma step_later:
  assumes "tile_ok logits hc i" "idx < length preds"
    and "preds ! idx = entry (t_width logits) hc R"
  shows "reassemble_step ph hc logits preds (i, idx, h) =
         Inr (preds[idx := entry (t_width logits) hc
                (\<lambda>k. R k @ trimmed ph h (t_data logits ! i ! k))])"
proof -
  let ?w = "t_width logits"
  let ?tile = "map (\<lambda>k. \<lparr>ncols = ?w, rows = t_data logits ! i ! k\<rparr>) [0..<hc]"
  let ?ps = "if h < ph then map (take_rows h) ?tile else ?tile"
  have th: "tile_heatmaps logits i hc = Inr ?tile"
    using assms(1) by (simp add: tile_ok_def tile_heatmaps_ok)
  have ps: "?ps = entry ?w hc (\<lambda>k. trimmed ph h (t_data logits ! i ! k))"
    by (simp add: entry_def trimmed_def take_rows_def)
  have "vstack_all hc (entry ?w hc R) (entry ?w hc (\<lambda>k. trimmed ph h (t_data logits ! i ! k))) =
        Inr (map (\<lambda>k. \<lparr>ncols = ?w, rows = rows (entry ?w hc R ! k)
               @ rows (entry ?w hc (\<lambda>k. trimmed ph h (t_data logits ! i ! k)) ! k)\<rparr>) [0..<hc])"
    by (rule vstack_all_ok) (simp_all add: entry_def)
  also have "\<dots> = Inr (entry ?w hc (\<lambda>k. R k @ trimmed ph h (t_data logits ! i ! k)))"
    by (simp add: entry_def)
  finally have vs: "vstack_all hc (preds ! idx) ?ps =
      Inr (entry ?w hc (\<lambda>k. R k @ trimmed ph h (t_data logits ! i ! k)))"
    by (simp only: ps assms(3))
  show ?thesis
    using assms(2) th vs by (simp add: reassemble_step_def Let_def)
qed


lemma loop_append:
  "reassemble_loop ph hc logits preds (xs @ ys) =
     (case reassemble_loop ph hc logits preds xs of
        Inl e \<Rightarrow> Inl e
      | Inr preds1 \<Rightarrow> reassemble_loop ph hc logits preds1 ys)"
  by (induction xs arbitrary: preds) (simp_all split: sum.splits)

lemma loop_later:
  assumes "\<And>i h. (i, h) \<in> set later \<Longrightarrow> tile_ok logits hc i"
    and "idx < length preds"
    and "preds ! idx = entry (t_width logits) hc R"
  shows "reassemble_loop ph hc logits preds (map (\<lambda>(i, h). (i, idx, h)) later) =
         Inr (preds[idx := entry (t_width logits) hc
                (\<lambda>k. R k @ concat (map (\<lambda>(i, h). trimmed ph h (t_data logits ! i ! k)) later))])"
  using assms
proof (induction later arbitrary: preds R)
  case Nil
  have "preds[idx := preds ! idx] = preds" by simp
  with Nil(3) show ?case by simp
next
  case (Cons x later)
  obtain i h where x: "x = (i, h)" by (cases x)
  let ?R = "\<lambda>k. R k @ trimmed ph h (t_data logits ! i ! k)"
  let ?preds = "preds[idx := entry (t_width logits) hc ?R]"
  have ok: "tile_ok logits hc i" using Cons.prems(1) [of i h] x by simp
  have okl: "tile_ok logits hc i'" if "(i', h') \<in> set later" for i' h'
    using Cons.prems(1) [of i' h'] that by simp
  have st: "reassemble_step ph hc logits preds (i, idx, h) = Inr ?preds"
    using ok Cons.prems(2,3) by (rule step_later)
  have "reassemble_loop ph hc logits ?preds (map (\<lambda>(i, h). (i, idx, h)) later) =
        Inr (?preds[idx := entry (t_width logits) hc
               (\<lambda>k. ?R k @ concat (map (\<lambda>(i, h). trimmed ph h (t_data logits ! i ! k)) later))])"
    using okl Cons.prems(2) by (intro Cons.IH) simp_all
  with st x show ?case by simp
qed

lemma loop_image:
  assumes "\<And>i h. (i, h) \<in> set g \<Longrightarrow> tile_ok logits hc i"
    and "g \<noteq> []" and "length preds = idx"
  shows "reassemble_loop ph hc logits preds (map (\<lambda>(i, h). (i, idx, h)) g) =
         Inr (preds @ [assembled ph hc logits g])"
proof -
  obtain i0 h0 later where g: "g = (i0, h0) # later"
    using assms(2) by (cases g) auto
  let ?e = "entry (t_width logits) hc (\<lambda>k. t_data logits ! i0 ! k)"
  have ok0: "tile_ok logits hc i0" using assms(1) [of i0 h0] g by simp
  have okl: "tile_ok logits hc i" if "(i, h) \<in> set later" for i h
    using assms(1) [of i h] that g by simp
  have st: "reassemble_step ph hc logits preds (i0, idx, h0) = Inr (preds @ [?e])"
    using ok0 assms(3) by (intro step_first) simp_all
  have "reassemble_loop ph hc logits (preds @ [?e]) (map (\<lambda>(i, h). (i, idx, h)) later) =
        Inr ((preds @ [?e])[idx := entry (t_width logits) hc
           (\<lambda>k. t_data logits ! i0 ! k
                  @ concat (map (\<lambda>(i, h). trimmed ph h (t_data logits ! i ! k)) later))])"
    using okl assms(3) [symmetric] by (intro loop_later) simp_all
  also have "\<dots> = Inr (preds @ [assembled ph hc logits g])"
    using assms(3) [symmetric] g by (simp add: assembled_def assembled_rows_def entry_def)
  finally show ?thesis using st g by simp
qed

lemma loop_batch:
  assumes "\<And>g i h. g \<in> set gs \<Longrightarrow> (i, h) \<in> set g \<Longrightarrow> tile_ok logits hc i"
    and "\<And>g. g \<in> set gs \<Longrightarrow> g \<noteq> []"
  shows "reassemble_loop ph hc logits preds
           (concat (map (\<lambda>(j, g). map (\<lambda>(i, h). (i, j, h)) g) (enumerate (length preds) gs))) =
         Inr (preds @ map (assembled ph hc logits) gs)"
  using assms
proof (induction gs arbitrary: preds)
  case Nil
  then show ?case by simp
next
  case (Cons g gs)
  have okg: "tile_ok logits hc i" if "(i, h) \<in> set g" for i h
    using Cons.prems(1) [of g i h] that by simp
  have okgs: "tile_ok logits hc i" if "g' \<in> set gs" "(i, h) \<in> set g'" for g' i h
    using Cons.prems(1) [of g' i h] that by simp
  have ne: "g \<noteq> []" using Cons.prems(2) [of g] by simp
  have nes: "g' \<noteq> []" if "g' \<in> set gs" for g'
    using Cons.prems(2) [of g'] that by simp
  have one: "reassemble_loop ph hc logits preds (map (\<lambda>(i, h). (i, length preds, h)) g) =
             Inr (preds @ [assembled ph hc logits g])"
    using okg ne by (intro loop_image) simp_all
  have rest: "reassemble_loop ph hc logits (preds @ [assembled ph hc logits g])
           (concat (map (\<lambda>(j, g). map (\<lambda>(i, h). (i, j, h)) g)
              (enumerate (length (preds @ [assembled ph hc logits g])) gs))) =
         Inr ((preds @ [assembled ph hc logits g]) @ map (assembled ph hc logits) gs)"
    using okgs nes by (intro Cons.IH) blast+
  show ?case
    using one rest by (simp add: loop_append)
qed

lemma zip_zip_replicate:
  "length js = length hs \<Longrightarrow>
   zip js (zip (replicate (length hs) p) hs) = map (\<lambda>(i, h). (i, p, h)) (zip js hs)"
proof (induction hs arbitrary: js)
  case Nil
  then show ?case by simp
next
  case (Cons h hs)
  then obtain j js' where "js = j # js'" by (cases js) auto
  with Cons show ?case by simp
qed

lemma enumerate_zip_replicate:
  "enumerate off (zip (replicate (length hs) p) hs) =
   map (\<lambda>(i, h). (i, p, h)) (zip [off..<off + length hs] hs)"
  by (simp add: enumerate_eq_zip zip_zip_replicate)

lemma enumerate_split_index:
  "enumerate off (zip (split_index_of p hss) (concat hss)) =
   concat (map (\<lambda>(j, g). map (\<lambda>(i, h). (i, j, h)) g) (enumerate p (groups off hss)))"
proof (induction hss arbitrary: off p)
  case Nil
  then show ?case by (simp add: split_index_of_def)
next
  case (Cons hs hss)
  have si: "split_index_of p (hs # hss) = replicate (length hs) p @ split_index_of (Suc p) hss"
    by (simp add: split_index_of_def)
  have "enumerate off (zip (split_index_of p (hs # hss)) (concat (hs # hss))) =
        enumerate off (zip (replicate (length hs) p) hs @ zip (split_index_of (Suc p) hss) (concat hss))"
    by (simp add: si)
  also have "\<dots> = enumerate off (zip (replicate (length hs) p) hs)
        @ enumerate (off + length hs) (zip (split_index_of (Suc p) hss) (concat hss))"
    by (simp add: enumerate_append_eq)
  finally show ?case
    by (simp add: Cons.IH enumerate_zip_replicate)
qed

lemma groups_length [simp]: "length (groups off hss) = length hss"
  by (induction hss arbitrary: off) simp_all

lemma groups_nonempty:
  "(\<And>hs. hs \<in> set hss \<Longrightarrow> hs \<noteq> []) \<Longrightarrow> g \<in> set (groups off hss) \<Longrightarrow> g \<noteq> []"
  by (induction hss arbitrary: off) auto

lemma groups_range:
  "g \<in> set (groups off hss) \<Longrightarrow> (i, h) \<in> set g \<Longrightarrow>
   off \<le> i \<and> i < off + length (concat hss)"
proof (induction hss arbitrary: off)
  case Nil
  then show ?case by simp
next
  case (Cons hs hss)
  from Cons.prems(1) have "g = zip [off..<off + length hs] hs \<or> g \<in> set (groups (off + length hs) hss)"
    by simp
  then show ?case
  proof
    assume "g = zip [off..<off + length hs] hs"
    with Cons.prems(2) have "i \<in> set [off..<off + length hs]"
      by (auto dest: set_zip_leftD)
    then show ?thesis by simp
  next
    assume "g \<in> set (groups (off + length hs) hss)"
    from Cons.IH [OF this Cons.prems(2)] show ?thesis by simp
  qed
qed

lemma reassemble_groups:
  assumes ne: "\<And>hs. hs \<in> set hss \<Longrightarrow> hs \<noteq> []"
    and ok: "\<And>i. i < length (concat hss) \<Longrightarrow> tile_ok logits hc i"
  shows "reassemble ph hc logits (split_index_of 0 hss) (concat hss) =
         Inr (map (assembled ph hc logits) (groups 0 hss))"
proof -
  have a: "tile_ok logits hc i" if "g \<in> set (groups 0 hss)" "(i, h) \<in> set g" for g i h
    using groups_range [OF that] ok by simp
  have b: "g \<noteq> []" if "g \<in> set (groups 0 hss)" for g
    using groups_nonempty [OF ne that] by simp
  let ?nil = "[] :: 'a array2d list list"
  have "reassemble_loop ph hc logits ?nil
          (concat (map (\<lambda>(j, g). map (\<lambda>(i, h). (i, j, h)) g)
             (enumerate (length ?nil) (groups 0 hss)))) =
        Inr (?nil @ map (assembled ph hc logits) (groups 0 hss))"
    by (rule loop_batch) (use a b in blast)+
  then show ?thesis
    by (simp add: reassemble_def enumerate_split_index)
qed

lemma tiler_from_heights:
  "0 < rem \<Longrightarrow> rem < W \<Longrightarrow>
   map validHeight (tiler_from idx W k (q * W + rem)) = replicate q W @ [rem]"
proof (induction q arbitrary: k)
  case 0
  then show ?case by (simp add: tiler_from_pos)
next
  case (Suc q)
  then have "map validHeight (tiler_from idx W k (Suc q * W + rem)) =
             W # map validHeight (tiler_from idx W (Suc k) (q * W + rem))"
    by (simp add: tiler_from_pos)
  with Suc show ?case by simp
qed

lemma tileHeights_one_short:
  assumes "1 \<le> m" "2 \<le> W"
  shows "tileHeights (m * W - 1) W = replicate (m - 1) W @ [W - 1]"
proof -
  from assms obtain q where m: "m = Suc q" by (cases m) auto
  have e: "m * W - 1 = q * W + (W - 1)" using assms m by simp
  have "map validHeight (tiler_from 0 W 0 (q * W + (W - 1))) = replicate q W @ [W - 1]"
    using assms(2) by (intro tiler_from_heights) simp_all
  then show ?thesis
    unfolding tileHeights_def tiler_def e using m by simp
qed

lemma trimmed_take:
  "length rs = W \<Longrightarrow> h \<le> W \<Longrightarrow> trimmed W h rs = take h rs"
  by (simp add: trimmed_def)

lemma tile_rows_length:
  assumes "wf_tensor logits" "tile_ok logits hc i" "k < hc"
  shows "length (t_data logits ! i ! k) = t_height logits"
proof -
  from assms(2,3) have "t_data logits ! i \<in> set (t_data logits)"
    and "t_data logits ! i ! k \<in> set (t_data logits ! i)"
    by (simp_all add: tile_ok_def)
  with assms(1) show ?thesis
    by (auto simp: wf_tensor_def list_all_iff)
qed

lemma assembled_rows_valid:
  assumes "g = (i0, h0) # later" "h0 = W"
    and "\<And>i h. (i, h) \<in> set g \<Longrightarrow> length (t_data logits ! i ! k) = W \<and> h \<le> W"
  shows "assembled_rows W logits g k = valid_rows logits g k"
proof -
  have m: "map (\<lambda>(i, h). trimmed W h (t_data logits ! i ! k)) later =
        map (\<lambda>(i, h). take h (t_data logits ! i ! k)) later"
  proof (intro map_cong refl)
    fix x assume x: "x \<in> set later"
    obtain i h where ih: "x = (i, h)" by (cases x)
    with x assms(1) have "(i, h) \<in> set g" by simp
    from assms(3) [OF this] ih
    show "(case x of (i, h) \<Rightarrow> trimmed W h (t_data logits ! i ! k)) =
          (case x of (i, h) \<Rightarrow> take h (t_data logits ! i ! k))"
      by (simp add: trimmed_take)
  qed
  have c: "concat (map (\<lambda>(i, h). trimmed W h (t_data logits ! i ! k)) later) =
        concat (map (\<lambda>(i, h). take h (t_data logits ! i ! k)) later)"
    by (simp only: m)
  have "length (t_data logits ! i0 ! k) = W" using assms(3) [of i0 h0] assms(1) by simp
  with c show ?thesis
    using assms(1,2) by (simp add: assembled_rows_def valid_rows_def)
qed

lemma valid_rows_length:
  assumes "\<And>i h. (i, h) \<in> set g \<Longrightarrow> length (t_data logits ! i ! k) = W \<and> h \<le> W"
  shows "length (valid_rows logits g k) = sum_list (map snd g)"
  using assms
proof (induction g)
  case Nil
  then show ?case by (simp add: valid_rows_def)
next
  case (Cons x g)
  obtain i h where x: "x = (i, h)" by (cases x)
  have "length (t_data logits ! i ! k) = W \<and> h \<le> W"
    using Cons.prems [of i h] x by simp
  moreover have "length (valid_rows logits g k) = sum_list (map snd g)"
  proof (rule Cons.IH)
    fix i h assume "(i, h) \<in> set g"
    then have "(i, h) \<in> set (x # g)" by simp
    from Cons.prems [OF this] show "length (t_data logits ! i ! k) = W \<and> h \<le> W" .
  qed
  ultimately show ?case using x by (simp add: valid_rows_def)
qed

lemma split_index_single: "split_index_of 0 [hs] = replicate (length hs) 0"
  by (simp add: split_index_of_def)

lemma tileHeights_length_one_short:
  "1 \<le> m \<Longrightarrow> 2 \<le> W \<Longrightarrow> length (tileHeights (m * W - 1) W) = m"
  using tileHeights_one_short [of m W] by simp

lemma tileHeights_sum_one_short:
  "1 \<le> m \<Longrightarrow> 2 \<le> W \<Longrightarrow> sum_list (tileHeights (m * W - 1) W) = m * W - 1"
  by (simp add: tileHeights_def tiler_def tiler_from_sum)

text \<open>
  Claim C2, amended. A batch whose images have the valid heights \<open>hss\<close> (one list per
  image, none empty), read from logits that hold every tile and channel, is reassembled
  into one heatmap list per image: the first tile of the image as it is, and every later
  tile cut to its valid height when that is below the window height \<open>W\<close>, which is what
  \<open>assembled\<close> says. In particular an image of height \<open>m * W - 1\<close> with \<open>m \<ge> 2\<close>
  tiles and a window of at least two rows, tiled by the Tiler of the spec and read from
  logits of the canonical height, has a last tile of valid height \<open>W - 1\<close>, and its
  reassembled heatmap is made of the valid rows of its tiles only: \<open>m * W - 1\<close> rows,
  the padded row of the last tile not among them.
\<close>

theorem reassembly_trims_later_tiles:
  "((\<forall>hs \<in> set hss. hs \<noteq> []) \<and> (\<forall>i < length (concat hss). tile_ok logits hc i) \<longrightarrow>
      reassemble W hc logits (split_index_of 0 hss) (concat hss) =
        Inr (map (assembled W hc logits) (groups 0 hss))) \<and>
   (2 \<le> m \<and> 2 \<le> W \<and> wf_tensor logits \<and> t_height logits = W \<and>
    (\<forall>i < m. tile_ok logits hc i) \<longrightarrow>
      last (tileHeights (m * W - 1) W) = W - 1 \<and>
      reassemble W hc logits (replicate m 0) (tileHeights (m * W - 1) W) =
        Inr [map (\<lambda>k. \<lparr>ncols = t_width logits,
                         rows = valid_rows logits (zip [0..<m] (tileHeights (m * W - 1) W)) k\<rparr>)
               [0..<hc]] \<and>
      (\<forall>k < hc. length (valid_rows logits (zip [0..<m] (tileHeights (m * W - 1) W)) k)
                  = m * W - 1))"
proof (intro conjI impI)
  assume a: "(\<forall>hs \<in> set hss. hs \<noteq> []) \<and> (\<forall>i < length (concat hss). tile_ok logits hc i)"
  show "reassemble W hc logits (split_index_of 0 hss) (concat hss) =
        Inr (map (assembled W hc logits) (groups 0 hss))"
    by (rule reassemble_groups) (use a in blast)+
next
  assume b: "2 \<le> m \<and> 2 \<le> W \<and> wf_tensor logits \<and> t_height logits = W \<and>
             (\<forall>i < m. tile_ok logits hc i)"
  let ?hs = "tileHeights (m * W - 1) W"
  let ?g = "zip [0..<m] ?hs"
  from b have m2: "2 \<le> m" and m: "1 \<le> m" and W: "2 \<le> W" by simp_all
  have hs: "?hs = replicate (m - 1) W @ [W - 1]"
    using m W by (rule tileHeights_one_short)
  have len: "length ?hs = m" using m W by (rule tileHeights_length_one_short)
  show last: "last ?hs = W - 1" unfolding hs by simp
  have ne: "?hs \<noteq> []" using len m by auto
  have g: "?g = (0, W) # zip [1..<m] (replicate (m - 2) W @ [W - 1])"
  proof -
    from m2 have "m - 1 = Suc (m - 2)" by arith
    then have "replicate (m - 1) W = W # replicate (m - 2) W" by simp
    then have "?hs = W # (replicate (m - 2) W @ [W - 1])" by (simp only: hs append_Cons)
    moreover from m2 have "[0..<m] = 0 # [1..<m]" by (simp add: upt_rec [of 0])
    ultimately show ?thesis by (simp only: zip_Cons_Cons)
  qed
  have fact: "length (t_data logits ! i ! k) = W \<and> h \<le> W"
    if "(i, h) \<in> set ?g" "k < hc" for i h k
  proof -
    from that(1) have i: "i < m" and h: "h \<in> set ?hs"
      by (auto dest: set_zip_leftD set_zip_rightD)
    from b i have "tile_ok logits hc i" by simp
    with b that(2) have "length (t_data logits ! i ! k) = W"
      using tile_rows_length [of logits hc i k] by simp
    moreover from h have "h \<le> W" unfolding hs by auto
    ultimately show ?thesis ..
  qed
  have rows_eq: "assembled_rows W logits ?g k = valid_rows logits ?g k" if "k < hc" for k
    by (rule assembled_rows_valid [OF g refl]) (use fact that in blast)
  have "reassemble W hc logits (split_index_of 0 [?hs]) (concat [?hs]) =
        Inr (map (assembled W hc logits) (groups 0 [?hs]))"
    by (rule reassemble_groups) (use ne b len in simp_all)
  then have "reassemble W hc logits (replicate m 0) ?hs = Inr [assembled W hc logits ?g]"
    using len by (simp add: split_index_single)
  also have "assembled W hc logits ?g =
             map (\<lambda>k. \<lparr>ncols = t_width logits, rows = valid_rows logits ?g k\<rparr>) [0..<hc]"
    unfolding assembled_def
  proof (rule map_cong)
    fix k assume "k \<in> set [0..<hc]"
    then have "k < hc" by simp
    from rows_eq [OF this]
    show "\<lparr>ncols = t_width logits, rows = assembled_rows W logits ?g k\<rparr> =
          \<lparr>ncols = t_width logits, rows = valid_rows logits ?g k\<rparr>"
      by (simp only:)
  qed (rule refl)
  finally show "reassemble W hc logits (replicate m 0) ?hs =
        Inr [map (\<lambda>k. \<lparr>ncols = t_width logits, rows = valid_rows logits ?g k\<rparr>) [0..<hc]]" .
  show "\<forall>k < hc. length (valid_rows logits ?g k) = m * W - 1"
  proof (intro allI impI)
    fix k assume k: "k < hc"
    have "length (valid_rows logits ?g k) = sum_list (map snd ?g)"
      by (rule valid_rows_length) (use fact k in blast)
    also have "map snd ?g = ?hs" using len by simp
    also have "sum_list ?hs = m * W - 1" using m W by (rule tileHeights_sum_one_short)
    finally show "length (valid_rows logits ?g k) = m * W - 1" .
  qed
qed


lemma tileHeights_3_2: "tileHeights (2 * 2 - 1) 2 = [2, 1]"
  by (simp add: tileHeights_def tiler_def tiler_from_pos)

lemma tileHeights_1_2: "tileHeights (1 * 2 - 1) 2 = [1]"
  by (simp add: tileHeights_def tiler_def tiler_from_pos)

theorem reassembly_trims_later_tiles_witness:
  "reassemble 2 1 \<lparr>t_height = 2, t_width = 1, t_data = [[[[1], [2]]], [[[3], [0::nat]]]]\<rparr>
     (split_index_of 0 [[2, 1 :: nat]]) (concat [[2, 1]]) =
     Inr [[\<lparr>ncols = 1, rows = [[1], [2], [3]]\<rparr>]] \<and>
   last (tileHeights (2 * 2 - 1) 2) = 2 - 1 \<and>
   reassemble 2 1 \<lparr>t_height = 2, t_width = 1, t_data = [[[[1], [2]]], [[[3], [0::nat]]]]\<rparr>
     (replicate 2 0) (tileHeights (2 * 2 - 1) 2) =
     Inr [[\<lparr>ncols = 1, rows = [[1], [2], [3]]\<rparr>]] \<and>
   length [[1], [2], [3::nat]] = 2 * 2 - 1"
proof -
  let ?lg = "\<lparr>t_height = 2, t_width = 1, t_data = [[[[1], [2]]], [[[3], [0::nat]]]]\<rparr>"
  note t = reassembly_trims_later_tiles [of "[[2, 1]]" ?lg 1 2 2]
  have ok: "\<forall>i < 2. tile_ok ?lg 1 i"
    by (simp add: tile_ok_def less_Suc_eq numeral_2_eq_2)
  have wf: "wf_tensor ?lg" by (simp add: wf_tensor_def)
  have h1: "(\<forall>hs \<in> set [[2, 1 :: nat]]. hs \<noteq> []) \<and>
            (\<forall>i < length (concat [[2, 1 :: nat]]). tile_ok ?lg 1 i)"
    using ok by simp
  have h2: "(2::nat) \<le> 2 \<and> (2::nat) \<le> 2 \<and> wf_tensor ?lg \<and> t_height ?lg = 2 \<and>
            (\<forall>i < 2. tile_ok ?lg 1 i)"
    using ok wf by simp
  have a: "reassemble 2 1 ?lg (split_index_of 0 [[2, 1 :: nat]]) (concat [[2, 1]]) =
           Inr (map (assembled 2 1 ?lg) (groups 0 [[2, 1 :: nat]]))"
    by (rule t [THEN conjunct1, THEN mp, OF h1])
  note b0 = t [THEN conjunct2, THEN mp, OF h2]
  have b: "reassemble 2 1 ?lg (replicate 2 0) (tileHeights (2 * 2 - 1) 2) =
        Inr [map (\<lambda>k. \<lparr>ncols = t_width ?lg,
                         rows = valid_rows ?lg (zip [0..<2] (tileHeights (2 * 2 - 1) 2)) k\<rparr>)
               [0..<1]]"
    by (rule b0 [THEN conjunct2, THEN conjunct1])
  have g: "map (assembled 2 1 ?lg) (groups 0 [[2, 1 :: nat]]) = [[\<lparr>ncols = 1, rows = [[1], [2], [3]]\<rparr>]]"
    by (simp add: assembled_def assembled_rows_def trimmed_def)
  have v: "valid_rows ?lg (zip [0..<2] (tileHeights (2 * 2 - 1) 2)) 0 = [[1], [2], [3]]"
    by code_simp
  from a g have c1: "reassemble 2 1 ?lg (split_index_of 0 [[2, 1 :: nat]]) (concat [[2, 1]]) =
     Inr [[\<lparr>ncols = 1, rows = [[1], [2], [3]]\<rparr>]]" by simp
  from b v have c2: "reassemble 2 1 ?lg (replicate 2 0) (tileHeights (2 * 2 - 1) 2) =
     Inr [[\<lparr>ncols = 1, rows = [[1], [2], [3]]\<rparr>]]" by simp
  have c3: "last (tileHeights (2 * 2 - 1) 2) = 2 - 1" by (rule b0 [THEN conjunct1])
  have c4: "length [[1], [2], [3::nat]] = 2 * 2 - 1" by simp
  from c1 c2 c3 c4 show ?thesis by (intro conjI)
qed

text \<open>
  Claim C2, as the spec states it: every tile is trimmed to its valid height whenever
  that is below the window height, and an image one row shorter than a multiple of the
  window height keeps no padded row. The first tile of an image is appended untrimmed:
  an image of height \<open>1 * 2 - 1\<close> under a window of height \<open>2\<close> is a single tile of
  valid height \<open>1\<close>, and both rows of its heatmap, the padded one included, are
  in the reassembled heatmap.
\<close>

theorem reassembly_first_tile_counterexample:
  "tileHeights (1 * 2 - 1) 2 = [1] \<and> (1::nat) < 2 \<and>
   reassemble 2 1 \<lparr>t_height = 2, t_width = 1, t_data = [[[[7], [0::nat]]]]\<rparr>
     [0] (tileHeights (1 * 2 - 1) 2) =
     Inr [[\<lparr>ncols = 1, rows = [[7], [0]]\<rparr>]] \<and>
   \<lparr>ncols = 1, rows = [[7], [0::nat]]\<rparr> \<noteq> take_rows 1 \<lparr>ncols = 1, rows = [[7], [0]]\<rparr>"
  unfolding tileHeights_1_2
  by (simp add: reassemble_def enumerate_eq_zip reassemble_step_def tile_heatmaps_def
      tensor_at_def take_rows_def)


section \<open>Verification of the Inference Adapter\<close>

lemma adapter_cases:
  "inference_adapter d ts =
     (if [t_height (model d ts), t_width (model d ts)] \<noteq> [processor_height d, processor_width d]
      then interpolate d (model d ts) [processor_height d, processor_width d] Bilinear False
      else model d ts)"
  by (simp add: inference_adapter_def Let_def)

lemma adapter_wf:
  assumes "model_contract d" "interpolate_contract d"
  shows "wf_tensor (inference_adapter d ts) \<and>
         t_height (inference_adapter d ts) = processor_height d \<and>
         t_width (inference_adapter d ts) = processor_width d \<and>
         map length (t_data (inference_adapter d ts)) = replicate (length ts) (num_labels d)"
proof -
  let ?l = "model d ts"
  have wf: "wf_tensor ?l" and n: "length (t_data ?l) = length ts"
    and c: "list_all (\<lambda>tc. length tc = num_labels d) (t_data ?l)"
    using assms(1) by (simp_all add: model_contract_def)
  have ml: "map length (t_data ?l) = replicate (length ts) (num_labels d)"
    using n c by (auto simp: list_all_iff intro!: replicate_eqI)
  show ?thesis
  proof (cases "[t_height ?l, t_width ?l] \<noteq> [processor_height d, processor_width d]")
    case True
    let ?r = "interpolate d ?l [processor_height d, processor_width d] Bilinear False"
    from assms(2) wf have "wf_tensor ?r \<and> t_height ?r = processor_height d \<and>
        t_width ?r = processor_width d \<and> map length (t_data ?r) = map length (t_data ?l)"
      unfolding interpolate_contract_def by blast
    with True ml show ?thesis by (simp add: adapter_cases)
  next
    case False
    with wf ml show ?thesis by (simp add: adapter_cases)
  qed
qed

lemma adapter_tile_ok:
  assumes "model_contract d" "interpolate_contract d" "i < length ts"
  shows "tile_ok (inference_adapter d ts) (num_labels d) i"
proof -
  from adapter_wf [OF assms(1,2), of ts]
  have ml: "map length (t_data (inference_adapter d ts)) = replicate (length ts) (num_labels d)"
    by simp
  then have "length (t_data (inference_adapter d ts)) = length ts"
    by (metis length_map length_replicate)
  moreover from ml assms(3) have "length (t_data (inference_adapter d ts) ! i) = num_labels d"
    by (metis calculation nth_map nth_replicate)
  ultimately show ?thesis using assms(3) by (simp add: tile_ok_def)
qed

lemma example_model_contract: "model_contract example_detector"
  by (simp add: model_contract_def example_detector_def wf_tensor_def list_all_iff)

lemma example_interpolate_contract: "interpolate_contract example_detector"
  by (simp add: interpolate_contract_def example_detector_def example_interpolate_def
      wf_tensor_def list_all_iff comp_def)

lemma tileHeights_nonempty: "0 < h \<Longrightarrow> 0 < W \<Longrightarrow> tileHeights h W \<noteq> []"
  by (simp add: tileHeights_def tiler_def tiler_from_pos)

lemma example_tiler_contract: "tiler_contract example_detector"
  by (simp add: tiler_contract_def example_detector_def example_heights_def tileHeights_nonempty)

text \<open>
  Claim C7. With a model that returns logits of the shape
  \<open>[tileCount, heatmapChannels, H', W']\<close> and an \<open>F.interpolate\<close> that returns the size
  it is asked for: when \<open>[H', W']\<close> differs from the processor's
  \<open>[height, width]\<close> the Inference Adapter hands on the logits resampled to that size in
  bilinear mode, and when they are equal it hands on the model's logits themselves; in
  both cases the heatmap of every tile and channel, as the reassembly loop reads it, has
  the processor's height and width.
\<close>

theorem inference_adapter_canonical:
  assumes "model_contract d" and "interpolate_contract d"
  shows "([t_height (model d ts), t_width (model d ts)] \<noteq> [processor_height d, processor_width d]
            \<longrightarrow> inference_adapter d ts =
                  interpolate d (model d ts) [processor_height d, processor_width d] Bilinear False) \<and>
         ([t_height (model d ts), t_width (model d ts)] = [processor_height d, processor_width d]
            \<longrightarrow> inference_adapter d ts = model d ts) \<and>
         (\<forall>i < length ts. \<forall>k < num_labels d.
            \<exists>hm. tensor_at (inference_adapter d ts) i k = Inr hm \<and>
                 shape hm = [processor_height d, processor_width d] \<and>
                 list_all (\<lambda>row. length row = processor_width d) (rows hm))"
proof (intro conjI allI impI)
  assume "[t_height (model d ts), t_width (model d ts)] \<noteq> [processor_height d, processor_width d]"
  then show "inference_adapter d ts =
      interpolate d (model d ts) [processor_height d, processor_width d] Bilinear False"
    by (simp add: adapter_cases)
next
  assume "[t_height (model d ts), t_width (model d ts)] = [processor_height d, processor_width d]"
  then show "inference_adapter d ts = model d ts"
    by (simp add: adapter_cases)
next
  fix i k assume i: "i < length ts" and k: "k < num_labels d"
  let ?out = "inference_adapter d ts"
  note w = adapter_wf [OF assms, of ts]
  have ok: "tile_ok ?out (num_labels d) i" using assms i by (rule adapter_tile_ok)
  then have at: "tensor_at ?out i k = Inr \<lparr>ncols = t_width ?out, rows = t_data ?out ! i ! k\<rparr>"
    using k by (simp add: tensor_at_def tile_ok_def)
  have len: "length (t_data ?out ! i ! k) = t_height ?out"
    using w ok k by (intro tile_rows_length) simp_all
  have mem: "t_data ?out ! i \<in> set (t_data ?out)" "t_data ?out ! i ! k \<in> set (t_data ?out ! i)"
    using ok k by (simp_all add: tile_ok_def)
  have "wf_tensor ?out" using w by simp
  with mem have cols: "list_all (\<lambda>row. length row = t_width ?out) (t_data ?out ! i ! k)"
    by (auto simp: wf_tensor_def list_all_iff)
  show "\<exists>hm. tensor_at ?out i k = Inr hm \<and>
             shape hm = [processor_height d, processor_width d] \<and>
             list_all (\<lambda>row. length row = processor_width d) (rows hm)"
    using at len cols w by (simp add: shape_def)
qed

theorem inference_adapter_canonical_witness:
  "model_contract example_detector \<and> interpolate_contract example_detector \<and>
   [t_height (model example_detector [3, 4]), t_width (model example_detector [3, 4])] = [1, 1] \<and>
   [processor_height example_detector, processor_width example_detector] = [2, 1] \<and>
   inference_adapter example_detector [3, 4] =
     interpolate example_detector (model example_detector [3, 4]) [2, 1] Bilinear False \<and>
   inference_adapter example_detector [3, 4] =
     \<lparr>t_height = 2, t_width = 1,
      t_data = [[[[3], [3]], [[13], [13]]], [[[4], [4]], [[14], [14]]]]\<rparr> \<and>
   (\<exists>hm. tensor_at (inference_adapter example_detector [3, 4]) 1 0 = Inr hm \<and>
         shape hm = [2, 1] \<and> list_all (\<lambda>row. length row = 1) (rows hm))"
proof -
  note t = inference_adapter_canonical [OF example_model_contract example_interpolate_contract,
      of "[3, 4]"]
  have s1: "[t_height (model example_detector [3, 4]), t_width (model example_detector [3, 4])]
            = [1, 1]"
    by (simp add: example_detector_def)
  have s2: "[processor_height example_detector, processor_width example_detector] = [2, 1]"
    by (simp add: example_detector_def)
  have ne: "[t_height (model example_detector [3, 4]), t_width (model example_detector [3, 4])]
            \<noteq> [processor_height example_detector, processor_width example_detector]"
    by (simp add: example_detector_def)
  from t [THEN conjunct1, THEN mp, OF ne] s2
  have a: "inference_adapter example_detector [3, 4] =
     interpolate example_detector (model example_detector [3, 4]) [2, 1] Bilinear False"
    by simp
  have v: "interpolate example_detector (model example_detector [3, 4]) [2, 1] Bilinear False =
     \<lparr>t_height = 2, t_width = 1,
      t_data = [[[[3], [3]], [[13], [13]]], [[[4], [4]], [[14], [14]]]]\<rparr>"
    by code_simp
  have "1 < length [3, 4 :: nat]" "0 < num_labels example_detector"
    by (simp_all add: example_detector_def)
  with t [THEN conjunct2, THEN conjunct2] s2
  have c: "\<exists>hm. tensor_at (inference_adapter example_detector [3, 4]) 1 0 = Inr hm \<and>
         shape hm = [2, 1] \<and> list_all (\<lambda>row. length row = 1) (rows hm)"
    by simp
  from example_model_contract example_interpolate_contract s1 s2 a v c
  show ?thesis by simp
qed


end
